theory Spec2Isabelle
  imports Main
begin

section \<open>Data model of \<open>src/utils/cssParser.ts\<close>\<close>

text \<open>
  The stylesheet is a JavaScript string, indexed by code unit. It is modelled as a
  \<^typ>\<open>string\<close> (a list of 8-bit characters), so the embedding covers texts whose code
  units lie in the Latin-1 range; indices and lengths count list positions. Indices are
  natural numbers; the sentinel \<open>-1\<close> of \<open>colonIndex\<close> and \<open>valueEndIndex\<close> is
  \<^term>\<open>None\<close>. The two nesting counters are integers, since the source decrements them
  without a floor.
\<close>

record CssVariable =
  id_v :: string
  name :: string
  value_v :: string
  startIndex :: nat
  endIndex :: nat
  selector :: string

abbreviation dquote :: char where "dquote \<equiv> CHR 0x22"
abbreviation squote :: char where "squote \<equiv> CHR 0x27"
abbreviation backslash :: char where "backslash \<equiv> CHR 0x5C"

text \<open>\<open>css[i]\<close>: \<open>undefined\<close> (here \<^term>\<open>None\<close>) outside the string, also at index \<open>-1\<close>.\<close>

definition char_at :: "string \<Rightarrow> nat \<Rightarrow> char option" where
  "char_at css i = (if i < length css then Some (css ! i) else None)"

definition char_before :: "string \<Rightarrow> nat \<Rightarrow> char option" where
  "char_before css i = (if i = 0 then None else char_at css (i - 1))"

text \<open>\<open>s.slice(a, b)\<close> and \<open>s.slice(a)\<close> for non-negative integer arguments.\<close>

definition slice :: "string \<Rightarrow> nat \<Rightarrow> nat \<Rightarrow> string" where
  "slice s a b = take (b - a) (drop a s)"

definition slice_from :: "string \<Rightarrow> nat \<Rightarrow> string" where
  "slice_from s a = drop a s"

text \<open>
  \<open>String.prototype.trim\<close>: the white space and line terminators of ECMAScript that
  fit a character of this model (TAB, LF, VT, FF, CR, SP, NBSP).
\<close>

definition is_space :: "char \<Rightarrow> bool" where
  "is_space c = (of_char c \<in> {9, 10, 11, 12, 13, 32, 160 :: nat})"

definition trim :: "string \<Rightarrow> string" where
  "trim s = rev (dropWhile is_space (rev (dropWhile is_space s)))"

text \<open>The character class \<open>[a-zA-Z0-9-_]\<close> and the test \<open>/^--[a-zA-Z0-9-_]+$/\<close>.\<close>

definition name_char :: "char \<Rightarrow> bool" where
  "name_char c =
     (let n = (of_char c :: nat)
      in (97 \<le> n \<and> n \<le> 122) \<or> (65 \<le> n \<and> n \<le> 90) \<or> (48 \<le> n \<and> n \<le> 57)
         \<or> c = CHR ''-'' \<or> c = CHR ''_'')"

fun valid_name :: "string \<Rightarrow> bool" where
  "valid_name (a # b # rest) =
     (a = CHR ''-'' \<and> b = CHR ''-'' \<and> rest \<noteq> [] \<and> list_all name_char rest)"
| "valid_name _ = False"

text \<open>The decimal rendering of a non-negative integer in a template literal.\<close>

definition digit_char :: "nat \<Rightarrow> char" where
  "digit_char d = char_of (48 + d)"

fun number_to_string :: "nat \<Rightarrow> string" where
  "number_to_string n =
     (if n < 10 then [digit_char n]
      else number_to_string (n div 10) @ [digit_char (n mod 10)])"

declare number_to_string.simps [simp del]

section \<open>The scanner: \<open>parseCssVariables\<close>\<close>

subsection \<open>The two forward sub-scans\<close>

text \<open>
  Lines 92--107: from \<open>j\<close>, find the first colon outside a quoted string; give up at an
  unquoted \<open>;\<close> or \<open>}\<close>, or at the end of the text.
\<close>

definition toggle_quote :: "string \<Rightarrow> nat \<Rightarrow> char option \<Rightarrow> char option" where
  "toggle_quote css j tempInString =
     (let c = css ! j
      in if (c = dquote \<or> c = squote) \<and> char_before css j \<noteq> Some backslash
         then (if tempInString = Some c then None
               else if tempInString = None then Some c
               else tempInString)
         else tempInString)"

function find_colon :: "string \<Rightarrow> nat \<Rightarrow> char option \<Rightarrow> nat option" where
  "find_colon css j tempInString =
     (if j < length css then
        (let c = css ! j
         in if c = CHR '':'' \<and> tempInString = None then Some j
            else
              (let tempInString' = toggle_quote css j tempInString
               in if (c = CHR '';'' \<or> c = CHR ''}'') \<and> tempInString' = None then None
                  else find_colon css (j + 1) tempInString'))
      else None)"
  by pat_completeness auto
termination
  by (relation "measure (\<lambda>(css, j, t). length css - j)") auto

declare find_colon.simps [simp del]

text \<open>
  Lines 119--136: from \<open>k\<close>, find the first \<open>;\<close> or \<open>}\<close> outside a quoted string at
  parenthesis depth 0.
\<close>

function find_value_end :: "string \<Rightarrow> nat \<Rightarrow> char option \<Rightarrow> int \<Rightarrow> nat option" where
  "find_value_end css k tempInStringVal tempParenDepth =
     (if k < length css then
        (let c = css ! k;
             tempInStringVal' = toggle_quote css k tempInStringVal
         in if tempInStringVal' = None then
              (if c = CHR ''('' then find_value_end css (k + 1) tempInStringVal' (tempParenDepth + 1)
               else if c = CHR '')'' then find_value_end css (k + 1) tempInStringVal' (tempParenDepth - 1)
               else if (c = CHR '';'' \<or> c = CHR ''}'') \<and> tempParenDepth = 0 then Some k
               else find_value_end css (k + 1) tempInStringVal' tempParenDepth)
            else find_value_end css (k + 1) tempInStringVal' tempParenDepth)
      else None)"
  by pat_completeness auto
termination
  by (relation "measure (\<lambda>(css, k, t, d). length css - k)") auto

declare find_value_end.simps [simp del]

subsection \<open>The outer pass\<close>

record scan_state =
  currentSelector :: string
  braceDepth :: int
  inComment :: bool
  inString :: "char option"
  buffer :: string
  variables :: "CssVariable list"

definition init_state :: scan_state where
  "init_state = \<lparr>currentSelector = [], braceDepth = 0, inComment = False,
     inString = None, buffer = [], variables = []\<rparr>"

text \<open>
  Lines 78--169: at a candidate start \<open>i\<close> (the text has \<open>--\<close> there), the declaration
  found and the index of the next iteration of the outer loop, or \<^term>\<open>None\<close> when the
  candidate is abandoned. \<open>currentSelector || 'Global'\<close> takes the sentinel for the empty
  string.
\<close>

definition detect_variable :: "string \<Rightarrow> nat \<Rightarrow> string \<Rightarrow> (CssVariable \<times> nat) option" where
  "detect_variable css i curSel =
     (case find_colon css i None of
        None \<Rightarrow> None
      | Some colonIndex \<Rightarrow>
          (let nm = trim (slice css i colonIndex)
           in if valid_name nm then
                (case find_value_end css (colonIndex + 1) None 0 of
                   None \<Rightarrow> None
                 | Some valueEndIndex \<Rightarrow>
                     (let valueStartIndex = colonIndex + 1;
                          rawValue = slice css valueStartIndex valueEndIndex
                      in Some (\<lparr>id_v = number_to_string i @ ''-'' @ number_to_string valueStartIndex,
                                 name = nm,
                                 value_v = rawValue,
                                 startIndex = valueStartIndex,
                                 endIndex = valueEndIndex,
                                 selector = (if curSel = [] then ''Global'' else curSel)\<rparr>,
                               if css ! valueEndIndex = CHR ''}'' then valueEndIndex
                               else valueEndIndex + 1)))
              else None))"

text \<open>
  One iteration of the \<open>for\<close> loop at index \<open>i < css.length\<close>, lines 21--174: the index
  of the next iteration (after the loop's \<open>i++\<close>) and the new state.
\<close>

definition scan_step :: "string \<Rightarrow> nat \<Rightarrow> scan_state \<Rightarrow> nat \<times> scan_state" where
  "scan_step css i st =
     (let char = css ! i;
          nextChar = char_at css (i + 1)
      in if inString st = None \<and> \<not> inComment st \<and> char = CHR ''/'' \<and> nextChar = Some (CHR ''*'')
           then (i + 2, st\<lparr>inComment := True\<rparr>)
         else if inComment st \<and> char = CHR ''*'' \<and> nextChar = Some (CHR ''/'')
           then (i + 2, st\<lparr>inComment := False\<rparr>)
         else if inComment st then (i + 1, st)
         else if inString st = None \<and> (char = dquote \<or> char = squote)
           then (i + 1, st\<lparr>inString := Some char\<rparr>)
         else if inString st = Some char \<and> char_before css i \<noteq> Some backslash
           then (i + 1, st\<lparr>inString := None\<rparr>)
         else if inString st \<noteq> None then (i + 1, st)
         else if char = CHR ''{''
           then (i + 1, st\<lparr>currentSelector :=
                              (if braceDepth st = 0 then trim (buffer st) else currentSelector st),
                            buffer := [],
                            braceDepth := braceDepth st + 1\<rparr>)
         else if char = CHR ''}''
           then (i + 1, st\<lparr>braceDepth := braceDepth st - 1,
                            currentSelector :=
                              (if braceDepth st - 1 = 0 then [] else currentSelector st),
                            buffer := []\<rparr>)
         else
           (case (if braceDepth st > 0 \<and> char = CHR ''-'' \<and> nextChar = Some (CHR ''-'')
                  then detect_variable css i (currentSelector st) else None) of
              Some (v, i') \<Rightarrow> (i', st\<lparr>variables := variables st @ [v]\<rparr>)
            | None \<Rightarrow>
                (i + 1, if braceDepth st = 0 then st\<lparr>buffer := buffer st @ [char]\<rparr> else st)))"

subsection \<open>Progress of the sub-scans and of one iteration\<close>

lemma find_colon_Some:
  "find_colon css j t = Some c \<Longrightarrow> j \<le> c \<and> c < length css \<and> css ! c = CHR '':''"
proof (induction css j t rule: find_colon.induct)
  case (1 css j t)
  from "1.prems" have lt: "j < length css"
    by (subst (asm) find_colon.simps) (simp split: if_splits)
  show ?case
  proof (cases "css ! j = CHR '':'' \<and> t = None")
    case True
    with "1.prems" lt show ?thesis
      by (subst (asm) find_colon.simps) simp
  next
    case False
    with "1.prems" lt
    have rec: "find_colon css (j + 1) (toggle_quote css j t) = Some c"
      and cont: "\<not> ((css ! j = CHR '';'' \<or> css ! j = CHR ''}'') \<and> toggle_quote css j t = None)"
      by (subst (asm) find_colon.simps, auto simp: Let_def split: if_splits)+
    from "1.IH" [OF lt refl False refl cont rec] show ?thesis by simp
  qed
qed

lemma find_value_end_Some:
  "find_value_end css k t d = Some e \<Longrightarrow>
     k \<le> e \<and> e < length css \<and> (css ! e = CHR '';'' \<or> css ! e = CHR ''}'')"
proof (induction css k t d rule: find_value_end.induct)
  case (1 css k t d)
  from "1.prems" have lt: "k < length css"
    by (subst (asm) find_value_end.simps) (simp split: if_splits)
  from "1.prems" lt "1.IH" show ?case
    by (subst (asm) find_value_end.simps) (force simp: Let_def split: if_splits)
qed

lemma detect_variable_Some:
  assumes "detect_variable css i curSel = Some (v, i')"
  shows "\<exists>c e. find_colon css i None = Some c \<and> find_value_end css (c + 1) None 0 = Some e
           \<and> valid_name (trim (slice css i c))
           \<and> v = \<lparr>id_v = number_to_string i @ ''-'' @ number_to_string (c + 1),
                   name = trim (slice css i c),
                   value_v = slice css (c + 1) e,
                   startIndex = c + 1, endIndex = e,
                   selector = (if curSel = [] then ''Global'' else curSel)\<rparr>
           \<and> i' = (if css ! e = CHR ''}'' then e else e + 1)"
  using assms
  by (auto simp: detect_variable_def Let_def split: option.splits if_splits)

lemma detect_variable_progress:
  assumes "detect_variable css i curSel = Some (v, i')"
  shows "i < i'"
proof -
  from detect_variable_Some [OF assms] obtain c e where
    c: "find_colon css i None = Some c" and e: "find_value_end css (c + 1) None 0 = Some e"
    and i': "i' = (if css ! e = CHR ''}'' then e else e + 1)"
    by blast
  from find_colon_Some [OF c] find_value_end_Some [OF e] i' show ?thesis
    by (simp split: if_splits)
qed

lemma scan_step_progress: "i < fst (scan_step css i st)"
  by (auto simp: scan_step_def Let_def split: option.splits dest: detect_variable_progress)

subsection \<open>The loop and the exported function\<close>

function scan_loop :: "string \<Rightarrow> nat \<Rightarrow> scan_state \<Rightarrow> scan_state" where
  "scan_loop css i st =
     (if i < length css
      then scan_loop css (fst (scan_step css i st)) (snd (scan_step css i st))
      else st)"
  by pat_completeness auto
termination
proof (relation "measure (\<lambda>p. length (fst p) - fst (snd p))")
  show "wf (measure (\<lambda>p :: string \<times> nat \<times> scan_state. length (fst p) - fst (snd p)))"
    by simp
next
  fix css :: string and i :: nat and st :: scan_state
  assume "i < length css"
  with scan_step_progress [of i css st]
  show "((css, fst (scan_step css i st), snd (scan_step css i st)), (css, i, st))
          \<in> measure (\<lambda>p. length (fst p) - fst (snd p))"
    by simp
qed

declare scan_loop.simps [simp del]

definition parseCssVariables :: "string \<Rightarrow> CssVariable list" where
  "parseCssVariables css = variables (scan_loop css 0 init_state)"

section \<open>The patcher: \<open>patchCss\<close>\<close>

text \<open>
  \<open>modifiedValues\<close> is a map from ids to strings; a missing key reads \<open>undefined\<close>.
  \<open>Array.prototype.sort\<close> is stable, and the comparator \<open>b.startIndex - a.startIndex\<close>
  orders by descending \<open>startIndex\<close>: a stable sort on the negated key.
\<close>

definition patch_one :: "(string \<rightharpoonup> string) \<Rightarrow> string \<Rightarrow> CssVariable \<Rightarrow> string" where
  "patch_one modifiedValues patched v =
     (case modifiedValues (id_v v) of
        None \<Rightarrow> patched
      | Some new \<Rightarrow>
          if new \<noteq> value_v v
          then slice patched 0 (startIndex v) @ new @ slice_from patched (endIndex v)
          else patched)"

definition patchCss :: "string \<Rightarrow> CssVariable list \<Rightarrow> (string \<rightharpoonup> string) \<Rightarrow> string" where
  "patchCss originalCss vars modifiedValues =
     (let sortedVars = sort_key (\<lambda>v. - int (startIndex v)) vars
      in foldl (patch_one modifiedValues) originalCss sortedVars)"

section \<open>Auxiliary notions for stating the properties\<close>

text \<open>
  \<open>declared_at css p d\<close>: the declaration \<open>d\<close> is, up to its selector, the one the
  scanner detects at the candidate start \<open>p\<close>. \<open>step_vars\<close> and \<open>new_vars\<close> are the
  declarations pushed by one iteration and by the rest of the loop.
\<close>

definition declared_at :: "string \<Rightarrow> nat \<Rightarrow> CssVariable \<Rightarrow> bool" where
  "declared_at css p d =
     (char_at css p = Some (CHR ''-'') \<and> char_at css (p + 1) = Some (CHR ''-'') \<and>
      (case detect_variable css p [] of
         None \<Rightarrow> False
       | Some (v, i') \<Rightarrow> d = v\<lparr>selector := selector d\<rparr>))"

definition new_vars :: "string \<Rightarrow> nat \<Rightarrow> scan_state \<Rightarrow> CssVariable list" where
  "new_vars css i st = drop (length (variables st)) (variables (scan_loop css i st))"

definition step_vars :: "string \<Rightarrow> nat \<Rightarrow> scan_state \<Rightarrow> CssVariable list" where
  "step_vars css i st = drop (length (variables st)) (variables (snd (scan_step css i st)))"

text \<open>
  \<open>scan_trace\<close> lists the configurations (index and state) at the head of each
  iteration of the same loop, in order; its last state is the result of \<open>scan_loop\<close>.
  A block is opened at a configuration that stands on \<open>{\<close> outside comments and strings
  at depth 0. \<open>inside_until d T\<close>: every configuration of \<open>T\<close> before the value of \<open>d\<close>
  has positive depth. \<open>selector_source css T k d\<close>: the \<open>k\<close>-th configuration opens the
  top-level block that still encloses \<open>d\<close>.
\<close>

function scan_trace :: "string \<Rightarrow> nat \<Rightarrow> scan_state \<Rightarrow> (nat \<times> scan_state) list" where
  "scan_trace css i st =
     (i, st) # (if i < length css
                then scan_trace css (fst (scan_step css i st)) (snd (scan_step css i st))
                else [])"
  by pat_completeness auto
termination
proof (relation "measure (\<lambda>p. length (fst p) - fst (snd p))")
  show "wf (measure (\<lambda>p :: string \<times> nat \<times> scan_state. length (fst p) - fst (snd p)))"
    by simp
next
  fix css :: string and i :: nat and st :: scan_state
  assume "i < length css"
  with scan_step_progress [of i css st]
  show "((css, fst (scan_step css i st), snd (scan_step css i st)), (css, i, st))
          \<in> measure (\<lambda>p. length (fst p) - fst (snd p))"
    by simp
qed

declare scan_trace.simps [simp del]








text \<open>
  The frame of a patch, following the specification's words: the original text is copied
  from left to right, and only the span of a declaration that has an entry in the
  mapping differing from its value is replaced by that entry.
\<close>

fun patch_spec :: "(string \<rightharpoonup> string) \<Rightarrow> string \<Rightarrow> nat \<Rightarrow> CssVariable list \<Rightarrow> string" where
  "patch_spec modifiedValues css pos [] = slice_from css pos"
| "patch_spec modifiedValues css pos (d # ds) =
     (case modifiedValues (id_v d) of
        None \<Rightarrow> patch_spec modifiedValues css pos ds
      | Some new \<Rightarrow>
          if new \<noteq> value_v d
          then slice css pos (startIndex d) @ new @ patch_spec modifiedValues css (endIndex d) ds
          else patch_spec modifiedValues css pos ds)"

section \<open>Properties of the scanner\<close>

subsection \<open>One iteration\<close>

lemma detect_variable_selector:
  "detect_variable css p cs = Some (v, i') \<Longrightarrow>
     detect_variable css p cs' = Some (v\<lparr>selector := (if cs' = [] then ''Global'' else cs')\<rparr>, i')"
  by (auto simp: detect_variable_def Let_def split: option.splits if_splits)

lemma detect_variable_in_range:
  "detect_variable css p cs = Some (v, i') \<Longrightarrow> p < length css"
  by (drule detect_variable_Some) (auto dest: find_colon_Some)

lemma detect_declared:
  assumes "detect_variable css p cs = Some (v, i')"
    and "css ! p = CHR ''-''" and "char_at css (p + 1) = Some (CHR ''-'')"
  shows "declared_at css p v"
  using detect_variable_selector [OF assms(1), where cs' = "[]"]
    detect_variable_in_range [OF assms(1)] assms(2,3)
  by (simp add: declared_at_def char_at_def)

lemma declared_atD:
  assumes "declared_at css p d"
  shows "\<exists>c e. find_colon css p None = Some c \<and> find_value_end css (c + 1) None 0 = Some e
           \<and> valid_name (trim (slice css p c))
           \<and> id_v d = number_to_string p @ ''-'' @ number_to_string (c + 1)
           \<and> name d = trim (slice css p c)
           \<and> value_v d = slice css (c + 1) e
           \<and> startIndex d = c + 1 \<and> endIndex d = e
           \<and> css ! p = CHR ''-'' \<and> char_at css (p + 1) = Some (CHR ''-'')"
proof -
  from assms have dash: "css ! p = CHR ''-''" "char_at css (p + 1) = Some (CHR ''-'')"
    by (auto simp: declared_at_def char_at_def split: if_splits)
  from assms obtain v i' where dv: "detect_variable css p [] = Some (v, i')"
    and d: "d = v\<lparr>selector := selector d\<rparr>"
    by (auto simp: declared_at_def split: option.splits)
  from detect_variable_Some [OF dv] obtain c e where
    "find_colon css p None = Some c" "find_value_end css (c + 1) None 0 = Some e"
    "valid_name (trim (slice css p c))"
    and v: "v = \<lparr>id_v = number_to_string p @ ''-'' @ number_to_string (c + 1),
                   name = trim (slice css p c),
                   value_v = slice css (c + 1) e,
                   startIndex = c + 1, endIndex = e,
                   selector = (if ([]::string) = [] then ''Global'' else [])\<rparr>"
    by blast
  moreover have "id_v d = id_v v" "name d = name v" "value_v d = value_v v"
      "startIndex d = startIndex v" "endIndex d = endIndex v"
    using arg_cong [OF d, of id_v] arg_cong [OF d, of name] arg_cong [OF d, of value_v]
      arg_cong [OF d, of startIndex] arg_cong [OF d, of endIndex]
    by simp_all
  ultimately show ?thesis using dash by simp
qed

lemma scan_step_cases:
  "variables (snd (scan_step css i st)) = variables st \<or>
   (\<exists>v i'. inString st = None \<and> \<not> inComment st \<and> 0 < braceDepth st
      \<and> css ! i = CHR ''-'' \<and> char_at css (i + 1) = Some (CHR ''-'')
      \<and> detect_variable css i (currentSelector st) = Some (v, i')
      \<and> scan_step css i st = (i', st\<lparr>variables := variables st @ [v]\<rparr>))"
  by (auto simp: scan_step_def Let_def split: option.splits if_splits)

lemma step_vars_cases:
  "step_vars css i st = [] \<or>
   (\<exists>v i'. inString st = None \<and> \<not> inComment st \<and> 0 < braceDepth st
      \<and> css ! i = CHR ''-'' \<and> char_at css (i + 1) = Some (CHR ''-'')
      \<and> detect_variable css i (currentSelector st) = Some (v, i')
      \<and> scan_step css i st = (i', st\<lparr>variables := variables st @ [v]\<rparr>)
      \<and> step_vars css i st = [v])"
  using scan_step_cases [of css i st] by (auto simp: step_vars_def)

lemma scan_step_variables:
  "variables (snd (scan_step css i st)) = variables st @ step_vars css i st"
  using scan_step_cases [of css i st] by (auto simp: step_vars_def)

lemma scan_step_no_emit:
  "detect_variable css i (currentSelector st) = None \<Longrightarrow>
     variables (snd (scan_step css i st)) = variables st"
  using scan_step_cases [of css i st] by auto

lemma find_value_end_immediate:
  assumes "char_at css k = Some (CHR '';'') \<or> char_at css k = Some (CHR ''}'')"
  shows "find_value_end css k None 0 = Some k"
proof -
  from assms have lt: "k < length css" and c: "css ! k = CHR '';'' \<or> css ! k = CHR ''}''"
    by (auto simp: char_at_def split: if_splits)
  from c have "toggle_quote css k None = None"
    by (auto simp: toggle_quote_def)
  with lt c show ?thesis
    by (subst find_value_end.simps) auto
qed

lemma scan_step_quote_opens:
  assumes "inString st = None" and "\<not> inComment st"
    and "css ! i = dquote \<or> css ! i = squote"
  shows "scan_step css i st = (i + 1, st\<lparr>inString := Some (css ! i)\<rparr>)"
  using assms by (auto simp: scan_step_def Let_def)

lemma scan_step_quote_closes:
  assumes "inString st = Some (css ! i)" and "\<not> inComment st"
  shows "scan_step css i st =
     (i + 1, if char_before css i \<noteq> Some backslash then st\<lparr>inString := None\<rparr> else st)"
  using assms by (auto simp: scan_step_def Let_def)



subsection \<open>The whole loop\<close>

lemma scan_loop_variables:
  "variables (scan_loop css i st) = variables st @ new_vars css i st"
proof (induction css i st rule: scan_loop.induct)
  case (1 css i st)
  show ?case
  proof (cases "i < length css")
    case True
    let ?i' = "fst (scan_step css i st)" and ?st' = "snd (scan_step css i st)"
    have "variables (scan_loop css i st) = variables (scan_loop css ?i' ?st')"
      using True by (subst scan_loop.simps) simp
    also have "\<dots> = variables ?st' @ new_vars css ?i' ?st'"
      using "1.IH" [OF True] .
    finally have "variables (scan_loop css i st)
        = variables st @ (step_vars css i st @ new_vars css ?i' ?st')"
      by (simp add: scan_step_variables)
    then show ?thesis by (simp add: new_vars_def)
  next
    case False
    then have "scan_loop css i st = st" by (subst scan_loop.simps) simp
    then show ?thesis by (simp add: new_vars_def)
  qed
qed

lemma new_vars_unfold:
  "new_vars css i st =
     (if i < length css
      then step_vars css i st
             @ new_vars css (fst (scan_step css i st)) (snd (scan_step css i st))
      else [])"
proof (cases "i < length css")
  case True
  let ?i' = "fst (scan_step css i st)" and ?st' = "snd (scan_step css i st)"
  have "variables (scan_loop css i st) = variables (scan_loop css ?i' ?st')"
    using True by (subst scan_loop.simps) simp
  then have "variables (scan_loop css i st)
      = variables st @ (step_vars css i st @ new_vars css ?i' ?st')"
    by (simp add: scan_loop_variables [of css ?i' ?st'] scan_step_variables)
  then show ?thesis using True by (simp add: new_vars_def)
next
  case False
  then show ?thesis by (simp add: new_vars_def scan_loop.simps)
qed

lemma parseCssVariables_new_vars: "parseCssVariables css = new_vars css 0 init_state"
  by (simp add: parseCssVariables_def new_vars_def init_state_def)

text \<open>Every declaration found from index \<open>i\<close> on was detected at some \<open>p \<ge> i\<close>, and each
  one ends before the next one starts.\<close>

lemma declared_at_bounds:
  assumes "declared_at css p d"
  shows "p < startIndex d" and "startIndex d \<le> endIndex d" and "endIndex d < length css"
  using declared_atD [OF assms] find_colon_Some find_value_end_Some
  by fastforce+

lemma detect_variable_next:
  assumes "detect_variable css i cs = Some (v, i')"
  shows "endIndex v \<le> i'"
  using detect_variable_Some [OF assms] by auto

lemma new_vars_declared:
  "d \<in> set (new_vars css i st) \<Longrightarrow> \<exists>p\<ge>i. declared_at css p d"
proof (induction css i st rule: scan_loop.induct)
  case (1 css i st)
  from "1.prems" have lt: "i < length css"
    by (subst (asm) new_vars_unfold) (simp split: if_splits)
  let ?i' = "fst (scan_step css i st)" and ?st' = "snd (scan_step css i st)"
  from "1.prems" lt consider "d \<in> set (step_vars css i st)" | "d \<in> set (new_vars css ?i' ?st')"
    by (subst (asm) new_vars_unfold) auto
  then show ?case
  proof cases
    case 1
    with step_vars_cases [of css i st] obtain i' where
      "detect_variable css i (currentSelector st) = Some (d, i')"
      "css ! i = CHR ''-''" "char_at css (i + 1) = Some (CHR ''-'')" by auto
    from detect_declared [OF this] show ?thesis by blast
  next
    case 2
    from "1.IH" [OF lt 2] obtain p where "?i' \<le> p" "declared_at css p d" by blast
    with scan_step_progress [of i css st] show ?thesis
      by (intro exI [of _ p]) simp
  qed
qed

lemma new_vars_separated:
  "sorted_wrt (\<lambda>a b. endIndex a < startIndex b) (new_vars css i st)"
proof (induction css i st rule: scan_loop.induct)
  case (1 css i st)
  show ?case
  proof (cases "i < length css")
    case True
    let ?i' = "fst (scan_step css i st)" and ?st' = "snd (scan_step css i st)"
    have later: "endIndex a < startIndex b"
      if a: "a \<in> set (step_vars css i st)" and b: "b \<in> set (new_vars css ?i' ?st')" for a b
    proof -
      from new_vars_declared [OF b] obtain p where p: "?i' \<le> p" "declared_at css p b" by blast
      from a step_vars_cases [of css i st] obtain i' where
        "detect_variable css i (currentSelector st) = Some (a, i')" "?i' = i'"
        by auto
      with detect_variable_next have "endIndex a \<le> ?i'" by simp
      with p declared_at_bounds(1) [OF p(2)] show ?thesis by simp
    qed
    have "sorted_wrt (\<lambda>a b. endIndex a < startIndex b) (step_vars css i st)"
      using step_vars_cases [of css i st] by auto
    with "1.IH" [OF True] later True show ?thesis
      by (subst new_vars_unfold) (simp add: sorted_wrt_append)
  next
    case False
    then show ?thesis by (subst new_vars_unfold) simp
  qed
qed

lemma parse_declared:
  "d \<in> set (parseCssVariables css) \<Longrightarrow> \<exists>p. declared_at css p d"
  using new_vars_declared [of d css 0 init_state] by (auto simp: parseCssVariables_new_vars)

lemma parse_separated:
  "sorted_wrt (\<lambda>a b. endIndex a < startIndex b) (parseCssVariables css)"
  by (simp add: parseCssVariables_new_vars new_vars_separated)

lemma parse_in_text:
  assumes "d \<in> set (parseCssVariables css)"
  shows "startIndex d \<le> endIndex d" and "endIndex d \<le> length css"
proof -
  from parse_declared [OF assms] obtain p where p: "declared_at css p d" ..
  from declared_at_bounds(2) [OF p] show "startIndex d \<le> endIndex d" .
  from declared_at_bounds(3) [OF p] show "endIndex d \<le> length css" by simp
qed


lemma scan_trace_last: "snd (last (scan_trace css i st)) = scan_loop css i st"
proof (induction css i st rule: scan_loop.induct)
  case (1 css i st)
  show ?case
  proof (cases "i < length css")
    case True
    let ?i' = "fst (scan_step css i st)" and ?st' = "snd (scan_step css i st)"
    have "scan_trace css ?i' ?st' \<noteq> []"
      by (subst scan_trace.simps) simp
    with True have "last (scan_trace css i st) = last (scan_trace css ?i' ?st')"
      by (subst scan_trace.simps) simp
    with "1.IH" [OF True] True show ?thesis
      by (subst scan_loop.simps) simp
  next
    case False
    then show ?thesis
      by (subst scan_trace.simps, subst scan_loop.simps) simp
  qed
qed


subsection \<open>The selector buffer and the source text\<close>















subsection \<open>Identifiers\<close>

lemma of_char_digit_char: "d < 10 \<Longrightarrow> of_char (digit_char d) = 48 + d"
  by (simp add: digit_char_def)

lemma digit_char_inj:
  assumes "a < 10" and "b < 10" and "digit_char a = digit_char b"
  shows "a = b"
proof -
  have "(of_char (digit_char a) :: nat) = of_char (digit_char b)"
    by (simp only: assms(3))
  then have "48 + a = 48 + b"
    by (simp only: of_char_digit_char [OF assms(1)] of_char_digit_char [OF assms(2)])
  then show ?thesis by simp
qed

lemma digit_char_not_dash:
  assumes "d < 10"
  shows "digit_char d \<noteq> CHR ''-''"
proof
  assume "digit_char d = CHR ''-''"
  then have "(of_char (digit_char d) :: nat) = of_char (CHR ''-'')" by (simp only:)
  then have "48 + d = 45" by (simp only: of_char_digit_char [OF assms]) simp
  then show False by simp
qed

lemma number_to_string_nonempty: "number_to_string n \<noteq> []"
  by (subst number_to_string.simps) simp

lemma number_to_string_no_dash: "CHR ''-'' \<notin> set (number_to_string n)"
proof (induction n rule: number_to_string.induct)
  case (1 n)
  show ?case
  proof (cases "n < 10")
    case True
    then show ?thesis
      using digit_char_not_dash [of n] by (subst number_to_string.simps) auto
  next
    case False
    with "1.IH" digit_char_not_dash [of "n mod 10"] show ?thesis
      by (subst number_to_string.simps) auto
  qed
qed

lemma number_to_string_inj: "number_to_string a = number_to_string b \<Longrightarrow> a = b"
proof (induction a arbitrary: b rule: number_to_string.induct)
  case (1 a)
  show ?case
  proof (cases "a < 10")
    case a: True
    show ?thesis
    proof (cases "b < 10")
      case True
      with a "1.prems" show ?thesis
        by (simp add: number_to_string.simps [of a] number_to_string.simps [of b] digit_char_inj)
    next
      case False
      with a "1.prems" number_to_string_nonempty [of "b div 10"] show ?thesis
        by (simp add: number_to_string.simps [of a] number_to_string.simps [of b]
              Cons_eq_append_conv)
    qed
  next
    case a: False
    show ?thesis
    proof (cases "b < 10")
      case True
      with a "1.prems" number_to_string_nonempty [of "a div 10"] show ?thesis
        by (simp add: number_to_string.simps [of a] number_to_string.simps [of b]
              append_eq_Cons_conv)
    next
      case False
      with a "1.prems" have eq: "number_to_string (a div 10) = number_to_string (b div 10)"
        and dg: "digit_char (a mod 10) = digit_char (b mod 10)"
        by (simp_all add: number_to_string.simps [of a] number_to_string.simps [of b])
      from "1.IH" [OF a eq] have "a div 10 = b div 10" .
      moreover from dg have "a mod 10 = b mod 10" by (simp add: digit_char_inj)
      ultimately show ?thesis by (metis div_mult_mod_eq)
    qed
  qed
qed

lemma split_at_dash:
  "x @ CHR ''-'' # y = x' @ CHR ''-'' # y' \<Longrightarrow> CHR ''-'' \<notin> set x \<Longrightarrow> CHR ''-'' \<notin> set x' \<Longrightarrow>
     x = x' \<and> y = y'"
proof (induction x arbitrary: x')
  case Nil
  then show ?case by (cases x') auto
next
  case (Cons a x)
  then show ?case by (cases x') auto
qed

lemma id_inj:
  "number_to_string p @ ''-'' @ number_to_string s = number_to_string p' @ ''-'' @ number_to_string s'
     \<Longrightarrow> p = p' \<and> s = s'"
  using split_at_dash [of "number_to_string p" "number_to_string s" "number_to_string p'" "number_to_string s'"]
  by (simp add: number_to_string_no_dash number_to_string_inj)

lemma sorted_wrt_distinct_map:
  "sorted_wrt (\<lambda>a b. f a \<noteq> f b) xs \<Longrightarrow> distinct (map f xs)"
  by (induction xs) auto

section \<open>Properties of the patcher\<close>

lemma patch_one_unedited:
  "modifiedValues (id_v v) = None \<or> modifiedValues (id_v v) = Some (value_v v) \<Longrightarrow>
     patch_one modifiedValues patched v = patched"
  by (auto simp: patch_one_def)

lemma foldl_patch_one_empty: "foldl (patch_one Map.empty) patched vs = patched"
  by (induction vs arbitrary: patched) (simp_all add: patch_one_unedited)

lemma insort_key_last:
  "\<forall>y \<in> set ys. f y < f x \<Longrightarrow> insort_key f x ys = ys @ [x]"
  by (induction ys) auto

lemma sort_key_descending:
  "sorted_wrt (\<lambda>a b. f b < f a) xs \<Longrightarrow> sort_key f xs = rev xs"
  by (induction xs) (simp_all add: insort_key_last)

lemma foldl_patch_one_rev:
  assumes "sorted_wrt (\<lambda>a b. endIndex a < startIndex b) ds"
    and "\<forall>d \<in> set ds. pos \<le> startIndex d \<and> startIndex d \<le> endIndex d \<and> endIndex d \<le> length css"
  shows "foldl (patch_one m) css (rev ds) = take pos css @ patch_spec m css pos ds"
  using assms
proof (induction ds arbitrary: pos)
  case Nil
  then show ?case by (simp add: slice_from_def)
next
  case (Cons d ds)
  let ?X = "foldl (patch_one m) css (rev ds)"
  from Cons.prems have sep: "sorted_wrt (\<lambda>a b. endIndex a < startIndex b) ds"
    and after: "\<forall>b \<in> set ds. endIndex d < startIndex b"
    and d: "pos \<le> startIndex d" "startIndex d \<le> endIndex d" "endIndex d \<le> length css"
    and rest: "\<forall>b \<in> set ds. startIndex b \<le> endIndex b \<and> endIndex b \<le> length css"
    by auto
  have X_end: "?X = take (endIndex d) css @ patch_spec m css (endIndex d) ds"
    using after rest by (intro Cons.IH [OF sep]) auto
  have X_pos: "?X = take pos css @ patch_spec m css pos ds"
    using after rest d by (intro Cons.IH [OF sep]) fastforce
  have step: "foldl (patch_one m) css (rev (d # ds)) = patch_one m ?X d" by simp
  show ?case
  proof (cases "\<exists>new. m (id_v d) = Some new \<and> new \<noteq> value_v d")
    case True
    then obtain new where new: "m (id_v d) = Some new" "new \<noteq> value_v d" by blast
    have "take (startIndex d) ?X = take (startIndex d) css"
      using d by (subst X_end) simp
    moreover have "drop (endIndex d) ?X = patch_spec m css (endIndex d) ds"
      using d by (subst X_end) simp
    moreover have "take (startIndex d) css = take pos css @ take (startIndex d - pos) (drop pos css)"
      using d(1) take_add [of pos "startIndex d - pos" css] by simp
    ultimately have "patch_one m ?X d
        = take pos css @ slice css pos (startIndex d) @ new @ patch_spec m css (endIndex d) ds"
      using new by (simp add: patch_one_def slice_def slice_from_def)
    with new step show ?thesis by simp
  next
    case False
    then have "patch_one m ?X d = ?X" and "patch_spec m css pos (d # ds) = patch_spec m css pos ds"
      by (auto simp: patch_one_def split: option.splits)
    with step X_pos show ?thesis by simp
  qed
qed

section \<open>The examples of the specification, evaluated\<close>

lemma scan_selective_example:
  "parseCssVariables '':root{--a: 1px; --b: 2px;}'' =
     [\<lparr>id_v = ''6-10'', name = ''--a'', value_v = '' 1px'', startIndex = 10,
        endIndex = 14, selector = '':root''\<rparr>,
      \<lparr>id_v = ''16-20'', name = ''--b'', value_v = '' 2px'', startIndex = 20,
        endIndex = 24, selector = '':root''\<rparr>]"
  by code_simp

lemma scan_unterminated_example: "parseCssVariables '':root{--a: 1px'' = []"
  by code_simp

lemma scan_stray_brace_example: "parseCssVariables ''} .a{--x: 1;}'' = []"
  by code_simp

lemma scan_empty_value_example:
  "parseCssVariables '':root{--a:;}'' =
     [\<lparr>id_v = ''6-10'', name = ''--a'', value_v = [], startIndex = 10,
        endIndex = 10, selector = '':root''\<rparr>]"
  by code_simp


lemma scan_spaced_prelude_example:
  "parseCssVariables '':root { --a: 1;}'' =
     [\<lparr>id_v = ''8-12'', name = ''--a'', value_v = '' 1'', startIndex = 12,
        endIndex = 14, selector = '':root''\<rparr>]"
  by code_simp




section \<open>The claims\<close>

text \<open>
  C1. Patching with an empty edits mapping is the identity: for every text,
  \<open>patchCss text (parseCssVariables text) {}\<close> is \<open>text\<close> itself, character for
  character.
\<close>

theorem C1_patch_empty_edits_identity:
  "patchCss text (parseCssVariables text) Map.empty = text"
  by (simp add: patchCss_def foldl_patch_one_empty)

text \<open>
  C2. For every text and every declaration \<open>d\<close> of its scan, the slice of the text
  from \<open>startIndex d\<close> (inclusive) to \<open>endIndex d\<close> (exclusive) is exactly the
  declaration's value.
\<close>

theorem C2_value_span:
  "d \<in> set (parseCssVariables css) \<Longrightarrow> slice css (startIndex d) (endIndex d) = value_v d"
proof -
  assume "d \<in> set (parseCssVariables css)"
  from parse_declared [OF this] obtain p where "declared_at css p d" ..
  from declared_atD [OF this] show ?thesis by auto
qed

theorem C2_value_span_witness:
  "\<lparr>id_v = ''16-20'', name = ''--b'', value_v = '' 2px'', startIndex = 20,
      endIndex = 24, selector = '':root''\<rparr> \<in> set (parseCssVariables '':root{--a: 1px; --b: 2px;}'')
   \<and> slice '':root{--a: 1px; --b: 2px;}'' 20 24 = '' 2px''"
  using C2_value_span [of "\<lparr>id_v = ''16-20'', name = ''--b'', value_v = '' 2px'', startIndex = 20,
      endIndex = 24, selector = '':root''\<rparr>" "'':root{--a: 1px; --b: 2px;}''"]
  by (simp add: scan_selective_example)

text \<open>
  C3. For every text, the scan's declarations have \<open>startIndex \<le> endIndex\<close>, are in
  strictly ascending order of \<open>startIndex\<close>, and the spans
  \<open>[startIndex, endIndex)\<close> of two distinct declarations of the list never overlap.
\<close>

theorem C3_spans_ordered_disjoint:
  "(\<forall>d \<in> set (parseCssVariables css). startIndex d \<le> endIndex d)
   \<and> sorted_wrt (\<lambda>a b. startIndex a < startIndex b) (parseCssVariables css)
   \<and> (\<forall>m n. m < length (parseCssVariables css) \<and> n < length (parseCssVariables css) \<and> m \<noteq> n \<longrightarrow>
         {startIndex (parseCssVariables css ! m) ..< endIndex (parseCssVariables css ! m)}
           \<inter> {startIndex (parseCssVariables css ! n) ..< endIndex (parseCssVariables css ! n)} = {})"
proof -
  let ?ds = "parseCssVariables css"
  have le: "startIndex d \<le> endIndex d" if "d \<in> set ?ds" for d
    using parse_declared [OF that] declared_at_bounds(2) by blast
  have sep: "sorted_wrt (\<lambda>a b. endIndex a < startIndex b) ?ds"
    by (rule parse_separated)
  have asc: "sorted_wrt (\<lambda>a b. startIndex a < startIndex b) ?ds"
    by (rule sorted_wrt_mono_rel [OF _ sep]) (use le in fastforce)
  have before: "endIndex (?ds ! m) < startIndex (?ds ! n)" if "m < n" "n < length ?ds" for m n
    using sep that by (simp add: sorted_wrt_iff_nth_less)
  have disj: "{startIndex (?ds ! m) ..< endIndex (?ds ! m)}
        \<inter> {startIndex (?ds ! n) ..< endIndex (?ds ! n)} = {}"
    if "m < length ?ds" "n < length ?ds" "m \<noteq> n" for m n
  proof (cases "m < n")
    case True
    from before [OF True that(2)] show ?thesis by auto
  next
    case False
    with that(3) have "n < m" by simp
    from before [OF this that(1)] show ?thesis by auto
  qed
  from le asc disj show ?thesis by blast
qed

theorem C3_spans_ordered_disjoint_witness:
  "length (parseCssVariables '':root{--a: 1px; --b: 2px;}'') = 2
   \<and> startIndex (parseCssVariables '':root{--a: 1px; --b: 2px;}'' ! 0)
        \<le> endIndex (parseCssVariables '':root{--a: 1px; --b: 2px;}'' ! 0)
   \<and> sorted_wrt (\<lambda>a b. startIndex a < startIndex b) (parseCssVariables '':root{--a: 1px; --b: 2px;}'')
   \<and> {startIndex (parseCssVariables '':root{--a: 1px; --b: 2px;}'' ! 0)
          ..< endIndex (parseCssVariables '':root{--a: 1px; --b: 2px;}'' ! 0)}
      \<inter> {startIndex (parseCssVariables '':root{--a: 1px; --b: 2px;}'' ! 1)
          ..< endIndex (parseCssVariables '':root{--a: 1px; --b: 2px;}'' ! 1)} = {}"
proof -
  note c3 = C3_spans_ordered_disjoint [of "'':root{--a: 1px; --b: 2px;}''"]
  have len: "length (parseCssVariables '':root{--a: 1px; --b: 2px;}'') = 2"
    by (simp add: scan_selective_example)
  then have two: "(0::nat) < length (parseCssVariables '':root{--a: 1px; --b: 2px;}'')
      \<and> (1::nat) < length (parseCssVariables '':root{--a: 1px; --b: 2px;}'') \<and> (0::nat) \<noteq> 1"
    by simp
  then have mem: "parseCssVariables '':root{--a: 1px; --b: 2px;}'' ! 0
      \<in> set (parseCssVariables '':root{--a: 1px; --b: 2px;}'')"
    by (simp only: nth_mem)
  from c3 mem have "startIndex (parseCssVariables '':root{--a: 1px; --b: 2px;}'' ! 0)
        \<le> endIndex (parseCssVariables '':root{--a: 1px; --b: 2px;}'' ! 0)"
    by blast
  moreover from c3 two have "{startIndex (parseCssVariables '':root{--a: 1px; --b: 2px;}'' ! 0)
          ..< endIndex (parseCssVariables '':root{--a: 1px; --b: 2px;}'' ! 0)}
      \<inter> {startIndex (parseCssVariables '':root{--a: 1px; --b: 2px;}'' ! 1)
          ..< endIndex (parseCssVariables '':root{--a: 1px; --b: 2px;}'' ! 1)} = {}"
    by blast
  moreover from c3
  have "sorted_wrt (\<lambda>a b. startIndex a < startIndex b) (parseCssVariables '':root{--a: 1px; --b: 2px;}'')"
    by blast
  ultimately show ?thesis using len by blast
qed

text \<open>
  C4. For every text and every edits mapping, patching the text with its own scan gives
  exactly \<open>patch_spec\<close>: the text read from left to right, where only the span
  \<open>[startIndex, endIndex)\<close> of a declaration whose id is mapped to a string other than its
  value is replaced by that string, and every character outside those spans is copied
  from the text in order. The span of a declaration that is absent from the mapping, or
  mapped to its own value, lies in the copied part and is reproduced unchanged.
\<close>

theorem C4_patch_frame:
  "patchCss css (parseCssVariables css) modifiedValues
     = patch_spec modifiedValues css 0 (parseCssVariables css)"
proof -
  let ?ds = "parseCssVariables css"
  have sep: "sorted_wrt (\<lambda>a b. endIndex a < startIndex b) ?ds"
    by (rule parse_separated)
  have "sorted_wrt (\<lambda>a b. - int (startIndex b) < - int (startIndex a)) ?ds"
    by (rule sorted_wrt_mono_rel [OF _ sep]) (use parse_in_text(1) in fastforce)
  then have "sort_key (\<lambda>v. - int (startIndex v)) ?ds = rev ?ds"
    by (rule sort_key_descending)
  moreover have "foldl (patch_one modifiedValues) css (rev ?ds)
      = take 0 css @ patch_spec modifiedValues css 0 ?ds"
    by (rule foldl_patch_one_rev [OF sep]) (simp add: parse_in_text)
  ultimately show ?thesis by (simp add: patchCss_def)
qed

theorem C4_patch_frame_witness:
  "patchCss '':root{--a: 1px; --b: 2px;}'' (parseCssVariables '':root{--a: 1px; --b: 2px;}'')
       [''6-10'' \<mapsto> '' 3px'']
     = '':root{--a: 3px; --b: 2px;}''
   \<and> patch_spec [''6-10'' \<mapsto> '' 3px''] '':root{--a: 1px; --b: 2px;}'' 0
        (parseCssVariables '':root{--a: 1px; --b: 2px;}'')
     = '':root{--a:'' @ '' 3px'' @ ''; --b: 2px;}''"
proof -
  have "patch_spec [''6-10'' \<mapsto> '' 3px''] '':root{--a: 1px; --b: 2px;}'' 0
        (parseCssVariables '':root{--a: 1px; --b: 2px;}'')
     = '':root{--a: 3px; --b: 2px;}''"
    by (simp add: scan_selective_example slice_def slice_from_def)
  with C4_patch_frame [of "'':root{--a: 1px; --b: 2px;}''" "[''6-10'' \<mapsto> '' 3px'']"]
  show ?thesis by simp
qed




text \<open>
  C6, at the text made of \<open>.a\<close>, a backslash, a double quote and \<open>b{--x:1;}\<close>. The
  quote at index 3 follows the backslash. The outer pass is not in string mode when it
  reaches the quote and is in string mode, with the double quote as closing delimiter,
  right after it; the quote handling of the two sub-scans, at the same index, stays out
  of string mode. The outer pass never leaves string mode again and the scan is empty.
\<close>

theorem C6_escaped_quote_opens_string:
  "char_before (''.a'' @ [backslash, dquote] @ ''b{--x:1;}'') 3 = Some backslash
   \<and> (''.a'' @ [backslash, dquote] @ ''b{--x:1;}'') ! 3 = dquote
   \<and> fst (scan_trace (''.a'' @ [backslash, dquote] @ ''b{--x:1;}'') 0 init_state ! 3) = 3
   \<and> inString (snd (scan_trace (''.a'' @ [backslash, dquote] @ ''b{--x:1;}'') 0 init_state ! 3)) = None
   \<and> inString (snd (scan_trace (''.a'' @ [backslash, dquote] @ ''b{--x:1;}'') 0 init_state ! 4))
        = Some dquote
   \<and> toggle_quote (''.a'' @ [backslash, dquote] @ ''b{--x:1;}'') 3 None = None
   \<and> inString (scan_loop (''.a'' @ [backslash, dquote] @ ''b{--x:1;}'') 0 init_state) = Some dquote
   \<and> parseCssVariables (''.a'' @ [backslash, dquote] @ ''b{--x:1;}'') = []"
  by code_simp

text \<open>
  C7. If the name scan of a candidate at \<open>i\<close> finds its colon at \<open>c\<close> and the value
  scan from \<open>c + 1\<close> reaches the end of the text without an unquoted \<open>;\<close> or \<open>}\<close>
  at parenthesis depth 0, the candidate is abandoned: the iteration pushes nothing and
  no declaration of the whole scan was detected at \<open>i\<close>. In particular the scan of
  \<open>:root{--a: 1px\<close> is empty.
\<close>

theorem C7_unterminated_value_no_record:
  assumes "find_colon css i None = Some c"
    and "find_value_end css (c + 1) None 0 = None"
  shows "detect_variable css i curSel = None
    \<and> variables (snd (scan_step css i st)) = variables st
    \<and> (\<forall>d \<in> set (parseCssVariables css). \<not> declared_at css i d)
    \<and> parseCssVariables '':root{--a: 1px'' = []"
proof -
  have none: "detect_variable css i cs = None" for cs
    using assms by (simp add: detect_variable_def Let_def)
  have "\<not> declared_at css i d" for d
    using declared_atD [of css i d] assms by auto
  with none scan_step_no_emit [OF none] scan_unterminated_example show ?thesis by blast
qed

theorem C7_unterminated_value_no_record_witness:
  "find_colon '':root{--a: 1px'' 6 None = Some 9
   \<and> find_value_end '':root{--a: 1px'' (9 + 1) None 0 = None
   \<and> detect_variable '':root{--a: 1px'' 6 '':root'' = None
   \<and> variables (snd (scan_step '':root{--a: 1px'' 6
        \<lparr>currentSelector = '':root'', braceDepth = 1, inComment = False,
           inString = None, buffer = [], variables = []\<rparr>)) = []
   \<and> parseCssVariables '':root{--a: 1px'' = []"
proof -
  have c: "find_colon '':root{--a: 1px'' 6 None = Some 9" by code_simp
  have e: "find_value_end '':root{--a: 1px'' (9 + 1) None 0 = None" by code_simp
  from C7_unterminated_value_no_record [OF c e, of "'':root''"
      "\<lparr>currentSelector = '':root'', braceDepth = 1, inComment = False,
           inString = None, buffer = [], variables = []\<rparr>"] c e
  show ?thesis by simp
qed

text \<open>
  C8. Every declaration's id is the decimal index \<open>p\<close> at which the scanner detected
  it (the start of its name), a dash, and the decimal value-start index; the ids of one
  scan are pairwise distinct. The scan reads nothing but the text, so a second scan of
  the same text gives the same ids.
\<close>

theorem C8_ids_positional_distinct:
  "distinct (map id_v (parseCssVariables css))
   \<and> (\<forall>d \<in> set (parseCssVariables css).
        \<exists>p < startIndex d. declared_at css p d
          \<and> id_v d = number_to_string p @ ''-'' @ number_to_string (startIndex d))
   \<and> (\<forall>css'. css' = css \<longrightarrow>
        map id_v (parseCssVariables css') = map id_v (parseCssVariables css))"
proof -
  let ?ds = "parseCssVariables css"
  have pos: "\<exists>p < startIndex d. declared_at css p d
          \<and> id_v d = number_to_string p @ ''-'' @ number_to_string (startIndex d)"
    if "d \<in> set ?ds" for d
  proof -
    from parse_declared [OF that] obtain p where p: "declared_at css p d" ..
    from declared_atD [OF p] declared_at_bounds(1) [OF p] p show ?thesis by auto
  qed
  have sep: "sorted_wrt (\<lambda>a b. endIndex a < startIndex b) ?ds"
    by (rule parse_separated)
  have "sorted_wrt (\<lambda>a b. id_v a \<noteq> id_v b) ?ds"
  proof (rule sorted_wrt_mono_rel [OF _ sep])
    fix a b
    assume a: "a \<in> set ?ds" and b: "b \<in> set ?ds" and ab: "endIndex a < startIndex b"
    from pos [OF a] obtain p where pa: "declared_at css p a"
      "id_v a = number_to_string p @ ''-'' @ number_to_string (startIndex a)" by blast
    from pos [OF b] obtain q where qb:
      "id_v b = number_to_string q @ ''-'' @ number_to_string (startIndex b)" by blast
    from declared_at_bounds(2) [OF pa(1)] ab have "startIndex a \<noteq> startIndex b" by simp
    with pa(2) qb id_inj [of p "startIndex a" q "startIndex b"] show "id_v a \<noteq> id_v b"
      by auto
  qed
  then have "distinct (map id_v ?ds)" by (rule sorted_wrt_distinct_map)
  with pos show ?thesis by simp
qed

theorem C8_ids_positional_distinct_witness:
  "map id_v (parseCssVariables '':root{--a: 1px; --b: 2px;}'') = [''6-10'', ''16-20'']
   \<and> distinct (map id_v (parseCssVariables '':root{--a: 1px; --b: 2px;}''))
   \<and> (\<exists>p < 20. declared_at '':root{--a: 1px; --b: 2px;}'' p
          \<lparr>id_v = ''16-20'', name = ''--b'', value_v = '' 2px'', startIndex = 20,
             endIndex = 24, selector = '':root''\<rparr>
        \<and> ''16-20'' = number_to_string p @ ''-'' @ number_to_string 20)"
proof -
  note c8 = C8_ids_positional_distinct [of "'':root{--a: 1px; --b: 2px;}''"]
  have mem: "\<lparr>id_v = ''16-20'', name = ''--b'', value_v = '' 2px'', startIndex = 20,
             endIndex = 24, selector = '':root''\<rparr>
      \<in> set (parseCssVariables '':root{--a: 1px; --b: 2px;}'')"
    by (simp add: scan_selective_example)
  from c8 have "\<forall>d \<in> set (parseCssVariables '':root{--a: 1px; --b: 2px;}'').
        \<exists>p < startIndex d. declared_at '':root{--a: 1px; --b: 2px;}'' p d
          \<and> id_v d = number_to_string p @ ''-'' @ number_to_string (startIndex d)"
    by blast
  from bspec [OF this mem]
  have "\<exists>p < 20. declared_at '':root{--a: 1px; --b: 2px;}'' p
          \<lparr>id_v = ''16-20'', name = ''--b'', value_v = '' 2px'', startIndex = 20,
             endIndex = 24, selector = '':root''\<rparr>
        \<and> ''16-20'' = number_to_string p @ ''-'' @ number_to_string 20"
    by simp
  moreover from c8 have "distinct (map id_v (parseCssVariables '':root{--a: 1px; --b: 2px;}''))"
    by blast
  moreover have "map id_v (parseCssVariables '':root{--a: 1px; --b: 2px;}'') = [''6-10'', ''16-20'']"
    by (simp add: scan_selective_example)
  ultimately show ?thesis by blast
qed

text \<open>
  C9. Outside comments and strings, \<open>}\<close> decrements the nesting depth whatever its
  value and \<open>{\<close> increments it; no declaration is detected at depth 0 or below. So a
  stray leading \<open>}\<close> drives the depth to \<open>-1\<close>, the next \<open>{\<close> only restores 0, and the
  scan of \<open>} .a{--x: 1;}\<close> is empty, although the same block without the stray brace
  gives one declaration.
\<close>

theorem C9_brace_depth_unfloored:
  assumes "i < length css" and "\<not> inComment st" and "inString st = None"
  shows "(css ! i = CHR ''}'' \<longrightarrow> braceDepth (snd (scan_step css i st)) = braceDepth st - 1)
    \<and> (css ! i = CHR ''{'' \<longrightarrow> braceDepth (snd (scan_step css i st)) = braceDepth st + 1)
    \<and> (braceDepth st \<le> 0 \<longrightarrow> variables (snd (scan_step css i st)) = variables st)
    \<and> braceDepth (scan_loop ''}'' 0 init_state) = - 1
    \<and> braceDepth (scan_loop ''} .a{'' 0 init_state) = 0
    \<and> parseCssVariables ''} .a{--x: 1;}'' = []
    \<and> length (parseCssVariables '' .a{--x: 1;}'') = 1"
proof -
  have a: "css ! i = CHR ''}'' \<longrightarrow> braceDepth (snd (scan_step css i st)) = braceDepth st - 1"
    using assms by (simp add: scan_step_def Let_def)
  have b: "css ! i = CHR ''{'' \<longrightarrow> braceDepth (snd (scan_step css i st)) = braceDepth st + 1"
    using assms by (simp add: scan_step_def Let_def)
  have c: "braceDepth st \<le> 0 \<longrightarrow> variables (snd (scan_step css i st)) = variables st"
    using scan_step_cases [of css i st] by auto
  have d: "braceDepth (scan_loop ''}'' 0 init_state) = - 1" by code_simp
  have e: "braceDepth (scan_loop ''} .a{'' 0 init_state) = 0" by code_simp
  have f: "length (parseCssVariables '' .a{--x: 1;}'') = 1" by code_simp
  from a b c d e f scan_stray_brace_example show ?thesis by blast
qed

theorem C9_brace_depth_unfloored_witness:
  "\<not> inComment init_state \<and> inString init_state = None
   \<and> ''} .a{--x: 1;}'' ! 0 = CHR ''}''
   \<and> braceDepth init_state = 0
   \<and> braceDepth (snd (scan_step ''} .a{--x: 1;}'' 0 init_state)) = - 1
   \<and> parseCssVariables ''} .a{--x: 1;}'' = []"
proof -
  have h: "\<not> inComment init_state" "inString init_state = None"
    by (simp_all add: init_state_def)
  have z: "braceDepth init_state = 0" by (simp add: init_state_def)
  have r: "0 < length ''} .a{--x: 1;}''" by simp
  from C9_brace_depth_unfloored [OF r h] h z
  show ?thesis by simp
qed

text \<open>
  C10. When the scanner, outside comments and strings and inside a block, stands on
  \<open>--\<close>, the name up to the colon is valid and the colon is immediately followed by
  \<open>;\<close> or \<open>}\<close>, the iteration pushes a declaration with the empty value and
  \<open>startIndex = endIndex\<close>. The scan of \<open>:root{--a:;}\<close> is exactly one such declaration,
  named \<open>--a\<close>.
\<close>

theorem C10_empty_value_declaration:
  assumes "inString st = None" and "\<not> inComment st" and "0 < braceDepth st"
    and "char_at css i = Some (CHR ''-'')" and "char_at css (i + 1) = Some (CHR ''-'')"
    and "find_colon css i None = Some c"
    and "valid_name (trim (slice css i c))"
    and "char_at css (c + 1) = Some (CHR '';'') \<or> char_at css (c + 1) = Some (CHR ''}'')"
  shows "variables (snd (scan_step css i st)) = variables st @
       [\<lparr>id_v = number_to_string i @ ''-'' @ number_to_string (c + 1),
         name = trim (slice css i c),
         value_v = [],
         startIndex = c + 1, endIndex = c + 1,
         selector = (if currentSelector st = [] then ''Global'' else currentSelector st)\<rparr>]
     \<and> parseCssVariables '':root{--a:;}'' =
       [\<lparr>id_v = ''6-10'', name = ''--a'', value_v = [], startIndex = 10,
          endIndex = 10, selector = '':root''\<rparr>]"
proof -
  from assms(4) have ci: "css ! i = CHR ''-''"
    by (auto simp: char_at_def split: if_splits)
  from find_value_end_immediate [OF assms(8)]
  have "find_value_end css (c + 1) None 0 = Some (c + 1)" .
  with assms(6,7) have "\<exists>i'. detect_variable css i (currentSelector st) =
      Some (\<lparr>id_v = number_to_string i @ ''-'' @ number_to_string (c + 1),
         name = trim (slice css i c),
         value_v = [],
         startIndex = c + 1, endIndex = c + 1,
         selector = (if currentSelector st = [] then ''Global'' else currentSelector st)\<rparr>, i')"
    by (simp add: detect_variable_def Let_def slice_def)
  with assms(1,2,3,5) ci have "variables (snd (scan_step css i st)) = variables st @
       [\<lparr>id_v = number_to_string i @ ''-'' @ number_to_string (c + 1),
         name = trim (slice css i c),
         value_v = [],
         startIndex = c + 1, endIndex = c + 1,
         selector = (if currentSelector st = [] then ''Global'' else currentSelector st)\<rparr>]"
    by (auto simp: scan_step_def Let_def)
  with scan_empty_value_example show ?thesis by blast
qed

theorem C10_empty_value_declaration_witness:
  "scan_loop '':root{'' 0 init_state =
      \<lparr>currentSelector = '':root'', braceDepth = 1, inComment = False,
         inString = None, buffer = [], variables = []\<rparr>
   \<and> char_at '':root{--a:;}'' 6 = Some (CHR ''-'')
   \<and> char_at '':root{--a:;}'' (6 + 1) = Some (CHR ''-'')
   \<and> find_colon '':root{--a:;}'' 6 None = Some 9
   \<and> valid_name (trim (slice '':root{--a:;}'' 6 9))
   \<and> char_at '':root{--a:;}'' (9 + 1) = Some (CHR '';'')
   \<and> variables (snd (scan_step '':root{--a:;}'' 6
        \<lparr>currentSelector = '':root'', braceDepth = 1, inComment = False,
           inString = None, buffer = [], variables = []\<rparr>)) =
       [\<lparr>id_v = ''6-10'', name = ''--a'', value_v = [], startIndex = 10,
          endIndex = 10, selector = '':root''\<rparr>]"
proof -
  let ?st = "\<lparr>currentSelector = '':root'', braceDepth = 1, inComment = False,
           inString = None, buffer = [], variables = []\<rparr>"
  have st: "scan_loop '':root{'' 0 init_state = ?st" by code_simp
  have h1: "inString ?st = None" and h2: "\<not> inComment ?st" and h3: "0 < braceDepth ?st"
    by simp_all
  have h4: "char_at '':root{--a:;}'' 6 = Some (CHR ''-'')" by code_simp
  have h5: "char_at '':root{--a:;}'' (6 + 1) = Some (CHR ''-'')" by code_simp
  have h6: "find_colon '':root{--a:;}'' 6 None = Some 9" by code_simp
  have h7: "valid_name (trim (slice '':root{--a:;}'' 6 9))" by code_simp
  have h8: "char_at '':root{--a:;}'' (9 + 1) = Some (CHR '';'')" by code_simp
  have n6: "number_to_string 6 = ''6''" and n10: "number_to_string 10 = ''10''"
    and nm: "trim (slice '':root{--a:;}'' 6 9) = ''--a''"
    by code_simp+
  from C10_empty_value_declaration [OF h1 h2 h3 h4 h5 h6 h7 disjI1 [OF h8]]
  have "variables (snd (scan_step '':root{--a:;}'' 6 ?st)) =
       [\<lparr>id_v = ''6-10'', name = ''--a'', value_v = [], startIndex = 10,
          endIndex = 10, selector = '':root''\<rparr>]"
    by (simp add: n6 n10 nm)
  with st h4 h5 h6 h7 h8 show ?thesis by blast
qed

end
